theory Spec2Isabelle
  imports Main
begin

section \<open>flatui: HTML to section list (src/font\_util.cpp)\<close>

text \<open>
  A shallow embedding of \<^verbatim>\<open>font_util.cpp\<close>: the whitespace normaliser
  \<^verbatim>\<open>TrimHtmlWhitespace\<close>, the helpers \<^verbatim>\<open>StartHtmlLine\<close> and
  \<^verbatim>\<open>ShouldTrimLeadingWhitespace\<close>, the tree walk
  \<^verbatim>\<open>GumboTreeToHtmlSections\<close> and the entry point \<^verbatim>\<open>ParseHtml\<close>.

  A \<^verbatim>\<open>std::string\<close> is a \<^typ>\<open>string\<close>, a \<^verbatim>\<open>std::vector<HtmlSection>\<close>
  is a list. The functions that mutate their argument in place return the new value.
  \<^verbatim>\<open>back()\<close> on an empty \<^verbatim>\<open>std::string\<close> or an empty
  \<^verbatim>\<open>std::vector\<close>, and \<^verbatim>\<open>operator[]\<close> out of range, are undefined
  behaviour in C++: each is an error value of the model, and the functions that can reach
  one return \<open>error + 'a\<close>.
\<close>

subsection \<open>Characters and C strings\<close>

text \<open>
  \<^verbatim>\<open>std::isspace\<close> in the "C" locale: space, horizontal tab, line feed, vertical tab,
  form feed and carriage return. A \<^typ>\<open>char\<close> is a byte; no byte from 0x80 on is
  whitespace.
\<close>

definition isspace :: "char \<Rightarrow> bool" where
  "isspace c \<longleftrightarrow>
     c = CHR 0x20 \<or> c = CHR 0x09 \<or> c = CHR 0x0A \<or> c = CHR 0x0B \<or> c = CHR 0x0C \<or> c = CHR 0x0D"

text \<open>
  A \<^verbatim>\<open>const char *\<close> walking a NUL-terminated buffer is the list of the characters
  from the pointer on; the terminator is what is read at the end of the list.
\<close>

fun deref :: "string \<Rightarrow> char" where
  "deref [] = CHR 0x00"
| "deref (c # cs) = c"

text \<open>A list is the content of a C string when no character of it is the terminator.\<close>

definition c_string :: "string \<Rightarrow> bool" where
  "c_string t \<longleftrightarrow> CHR 0x00 \<notin> set t"

subsection \<open>TrimHtmlWhitespace\<close>

text \<open>\<^verbatim>\<open>while (std::isspace(*t)) ++t;\<close>\<close>

fun skip_whitespace :: "string \<Rightarrow> string" where
  "skip_whitespace [] = []"
| "skip_whitespace (c # cs) = (if isspace c then skip_whitespace cs else c # cs)"

text \<open>\<^verbatim>\<open>while (!std::isspace(*t) && *t != '\0') out->push_back(*t++);\<close>
  returns the pointer and the buffer.\<close>

fun output_non_whitespace :: "string \<Rightarrow> string \<Rightarrow> string \<times> string" where
  "output_non_whitespace [] out = ([], out)"
| "output_non_whitespace (c # cs) out =
     (if \<not> isspace c \<and> c \<noteq> CHR 0x00 then output_non_whitespace cs (out @ [c])
      else (c # cs, out))"

lemma length_skip_whitespace: "length (skip_whitespace t) \<le> length t"
  by (induction t) auto

lemma length_output_non_whitespace: "length (fst (output_non_whitespace t out)) \<le> length t"
  by (induction t arbitrary: out) (auto intro: le_SucI)

lemma output_non_whitespace_stops:
  "deref (fst (output_non_whitespace t out)) \<noteq> CHR 0x00 \<Longrightarrow>
   isspace (deref (fst (output_non_whitespace t out)))"
  by (induction t arbitrary: out) auto

lemma skip_whitespace_shorter: "isspace (deref t) \<Longrightarrow> length (skip_whitespace t) < length t"
  using length_skip_whitespace [of "tl t"]
  by (cases t) (auto simp: isspace_def)

text \<open>The \<^verbatim>\<open>for (;;)\<close> loop of \<^verbatim>\<open>TrimHtmlWhitespace\<close>.\<close>

function trim_loop :: "string \<Rightarrow> string \<Rightarrow> string" where
  "trim_loop t out =
     (let r = output_non_whitespace t out; t' = fst r; out' = snd r
      in if deref t' = CHR 0x00 then out'
         else trim_loop (skip_whitespace t') (out' @ [CHR 0x20]))"
  by pat_completeness auto
termination
proof (relation "measure (\<lambda>(t, out). length t)")
  show "wf (measure (\<lambda>(t, out). length t))"
    by simp
next
  fix t out :: string and r t' out'
  assume r: "r = output_non_whitespace t out" and t': "t' = fst r"
    and more: "deref t' \<noteq> CHR 0x00"
  from r t' more have "isspace (deref t')"
    using output_non_whitespace_stops [of t out] by simp
  then have "length (skip_whitespace t') < length t'"
    by (rule skip_whitespace_shorter)
  also have "length t' \<le> length t"
    using r t' length_output_non_whitespace [of t out] by simp
  finally show "((skip_whitespace t', out' @ [CHR 0x20]), (t, out)) \<in> measure (\<lambda>(t, out). length t)"
    by simp
qed

declare trim_loop.simps [simp del]

definition TrimHtmlWhitespace :: "string \<Rightarrow> bool \<Rightarrow> string \<Rightarrow> string" where
  "TrimHtmlWhitespace text_in trim_leading_whitespace out =
     trim_loop (if trim_leading_whitespace then skip_whitespace text_in else text_in) out"

subsection \<open>Sections\<close>

text \<open>\<^verbatim>\<open>struct HtmlSection { std::string text; std::string link; }\<close> (font\_util.h);
  the fields are \<open>section_text\<close> and \<open>section_link\<close> here.\<close>

record HtmlSection =
  section_text :: string
  section_link :: string

text \<open>The default-constructed \<^verbatim>\<open>HtmlSection()\<close>.\<close>

definition HtmlSection_new :: HtmlSection where
  "HtmlSection_new = \<lparr>section_text = [], section_link = []\<rparr>"

datatype error = StringBackOnEmpty | VectorBackOnEmpty | VectorIndexOutOfRange

text \<open>\<^verbatim>\<open>s->back().text = t\<close> on a non-empty vector.\<close>

definition set_back_text :: "HtmlSection list \<Rightarrow> string \<Rightarrow> HtmlSection list" where
  "set_back_text s t = butlast s @ [(last s)\<lparr>section_text := t\<rparr>]"

subsection \<open>StartHtmlLine\<close>

text \<open>\<^verbatim>\<open>while (std::isspace(out->back())) out->pop_back();\<close>
  The loop reads \<^verbatim>\<open>out->back()\<close> before every test, also when the buffer is empty.\<close>

function trim_trailing_whitespace :: "string \<Rightarrow> error + string" where
  "trim_trailing_whitespace out =
     (if out = [] then Inl StringBackOnEmpty
      else if isspace (last out) then trim_trailing_whitespace (butlast out)
      else Inr out)"
  by pat_completeness auto
termination
  by (relation "measure length") auto

declare trim_trailing_whitespace.simps [simp del]

definition StartHtmlLine :: "string \<Rightarrow> string \<Rightarrow> error + string" where
  "StartHtmlLine prefix out =
     (case trim_trailing_whitespace out of
        Inl e \<Rightarrow> Inl e
      | Inr out' \<Rightarrow> Inr (if out' \<noteq> [] then out' @ prefix else out'))"

subsection \<open>ShouldTrimLeadingWhitespace\<close>

definition ShouldTrimLeadingWhitespace :: "HtmlSection list \<Rightarrow> error + bool" where
  "ShouldTrimLeadingWhitespace s =
     (if length s \<le> 1 then Inr True
      else let prev_text = (if section_text (last s) = []
                            then section_text (s ! (length s - 2))
                            else section_text (last s))
           in if prev_text = [] then Inl StringBackOnEmpty
              else Inr (isspace (last prev_text)))"

subsection \<open>The document tree\<close>

text \<open>
  The tree is the Gumbo parser's (gumbo.h, an external library). Of its tag enumeration
  the walk tells apart the anchor, the paragraph, the six headings, the horizontal rule and
  the line break; every other tag takes the \<^verbatim>\<open>default\<close> branches, and is here
  \<open>GUMBO_TAG_HTML\<close>, \<open>GUMBO_TAG_HEAD\<close>, \<open>GUMBO_TAG_BODY\<close> or \<open>GUMBO_TAG_OTHER\<close> with
  its number. Of the node types the walk tells apart the element and the text; every other
  one (document, CDATA, comment, whitespace, template) is \<open>GUMBO_NODE_OTHER\<close>.
\<close>

datatype GumboTag =
    GUMBO_TAG_A | GUMBO_TAG_P
  | GUMBO_TAG_H1 | GUMBO_TAG_H2 | GUMBO_TAG_H3 | GUMBO_TAG_H4 | GUMBO_TAG_H5 | GUMBO_TAG_H6
  | GUMBO_TAG_HR | GUMBO_TAG_BR
  | GUMBO_TAG_HTML | GUMBO_TAG_HEAD | GUMBO_TAG_BODY
  | GUMBO_TAG_OTHER nat

text \<open>An attribute is its name and its value.\<close>

type_synonym GumboAttribute = "string \<times> string"

datatype GumboNode =
    GUMBO_NODE_ELEMENT GumboTag "GumboAttribute list" "GumboNode list"
  | GUMBO_NODE_TEXT string
  | GUMBO_NODE_OTHER

text \<open>
  Modelled from the spec: \<^verbatim>\<open>gumbo_get_attribute\<close> is the parser library's, "an
  attribute lookup by name returning an optional value": the value of the first attribute
  of that name, if there is one.
\<close>

fun gumbo_get_attribute :: "GumboAttribute list \<Rightarrow> string \<Rightarrow> string option" where
  "gumbo_get_attribute [] name = None"
| "gumbo_get_attribute ((n, v) # attrs) name =
     (if n = name then Some v else gumbo_get_attribute attrs name)"

subsection \<open>GumboTreeToHtmlSections\<close>

text \<open>The first \<^verbatim>\<open>switch (element.tag)\<close>: tree prefix processing.\<close>

definition start_line_at_back :: "HtmlSection list \<Rightarrow> error + HtmlSection list" where
  "start_line_at_back s =
     (if s = [] then Inl VectorBackOnEmpty
      else case StartHtmlLine [CHR 0x0A, CHR 0x0A] (section_text (last s)) of
             Inl e \<Rightarrow> Inl e
           | Inr t \<Rightarrow> Inr (set_back_text s t))"

fun TreePrefix :: "GumboTag \<Rightarrow> HtmlSection list \<Rightarrow> error + HtmlSection list" where
  "TreePrefix GUMBO_TAG_A s =
     (if s = [] then Inl VectorBackOnEmpty
      else if section_text (last s) \<noteq> [] then Inr (s @ [HtmlSection_new])
      else Inr s)"
| "TreePrefix GUMBO_TAG_P s = start_line_at_back s"
| "TreePrefix GUMBO_TAG_H1 s = start_line_at_back s"
| "TreePrefix GUMBO_TAG_H2 s = start_line_at_back s"
| "TreePrefix GUMBO_TAG_H3 s = start_line_at_back s"
| "TreePrefix GUMBO_TAG_H4 s = start_line_at_back s"
| "TreePrefix GUMBO_TAG_H5 s = start_line_at_back s"
| "TreePrefix GUMBO_TAG_H6 s = start_line_at_back s"
| "TreePrefix _ s = Inr s"

text \<open>The second \<^verbatim>\<open>switch (element.tag)\<close>: tree postfix processing.\<close>

definition append_at_back :: "string \<Rightarrow> HtmlSection list \<Rightarrow> error + HtmlSection list" where
  "append_at_back str s =
     (if s = [] then Inl VectorBackOnEmpty
      else Inr (set_back_text s (section_text (last s) @ str)))"

definition record_link :: "GumboAttribute list \<Rightarrow> nat \<Rightarrow> HtmlSection list \<Rightarrow> error + HtmlSection list" where
  "record_link attributes node_section s =
     (case gumbo_get_attribute attributes ''href'' of
        None \<Rightarrow> Inr s
      | Some v \<Rightarrow>
          if node_section < length s
          then Inr (s[node_section := (s ! node_section)\<lparr>section_link := v\<rparr>])
          else Inl VectorIndexOutOfRange)"

fun TreePostfix :: "GumboTag \<Rightarrow> GumboAttribute list \<Rightarrow> nat \<Rightarrow> HtmlSection list \<Rightarrow> error + HtmlSection list" where
  "TreePostfix GUMBO_TAG_A attributes node_section s =
     (case record_link attributes node_section s of
        Inl e \<Rightarrow> Inl e
      | Inr s' \<Rightarrow> Inr (s' @ [HtmlSection_new]))"
| "TreePostfix GUMBO_TAG_HR attributes node_section s = append_at_back [CHR 0x0A, CHR 0x0A] s"
| "TreePostfix GUMBO_TAG_P attributes node_section s = append_at_back [CHR 0x0A, CHR 0x0A] s"
| "TreePostfix GUMBO_TAG_H1 attributes node_section s = append_at_back [CHR 0x0A] s"
| "TreePostfix GUMBO_TAG_H2 attributes node_section s = append_at_back [CHR 0x0A] s"
| "TreePostfix GUMBO_TAG_H3 attributes node_section s = append_at_back [CHR 0x0A] s"
| "TreePostfix GUMBO_TAG_H4 attributes node_section s = append_at_back [CHR 0x0A] s"
| "TreePostfix GUMBO_TAG_H5 attributes node_section s = append_at_back [CHR 0x0A] s"
| "TreePostfix GUMBO_TAG_H6 attributes node_section s = append_at_back [CHR 0x0A] s"
| "TreePostfix GUMBO_TAG_BR attributes node_section s = append_at_back [CHR 0x0A] s"
| "TreePostfix _ attributes node_section s = Inr s"

text \<open>The \<^verbatim>\<open>GUMBO_NODE_TEXT\<close> case.\<close>

definition append_text :: "string \<Rightarrow> HtmlSection list \<Rightarrow> error + HtmlSection list" where
  "append_text t s =
     (if s = [] then Inl VectorBackOnEmpty
      else case ShouldTrimLeadingWhitespace s of
             Inl e \<Rightarrow> Inl e
           | Inr trim \<Rightarrow> Inr (set_back_text s (TrimHtmlWhitespace t trim (section_text (last s)))))"

text \<open>
  The walk. \<^verbatim>\<open>node_section\<close> is \<^verbatim>\<open>s->size() - 1\<close> after the prefix processing;
  only the anchor's postfix reads it, and the anchor's prefix has already failed on an
  empty vector, so the wrap-around of the unsigned subtraction at size 0 is never read.
  \<open>children_loop\<close> is the \<^verbatim>\<open>for\<close> loop over \<^verbatim>\<open>element.children\<close>.
\<close>

fun GumboTreeToHtmlSections :: "GumboNode \<Rightarrow> HtmlSection list \<Rightarrow> error + HtmlSection list"
  and children_loop :: "GumboNode list \<Rightarrow> HtmlSection list \<Rightarrow> error + HtmlSection list" where
  "GumboTreeToHtmlSections (GUMBO_NODE_ELEMENT tag attributes children) s =
     (case TreePrefix tag s of
        Inl e \<Rightarrow> Inl e
      | Inr s1 \<Rightarrow>
          (case children_loop children s1 of
             Inl e \<Rightarrow> Inl e
           | Inr s2 \<Rightarrow> TreePostfix tag attributes (length s1 - 1) s2))"
| "GumboTreeToHtmlSections (GUMBO_NODE_TEXT t) s = append_text t s"
| "GumboTreeToHtmlSections GUMBO_NODE_OTHER s = Inr s"
| "children_loop [] s = Inr s"
| "children_loop (child # children) s =
     (case GumboTreeToHtmlSections child s of
        Inl e \<Rightarrow> Inl e
      | Inr s' \<Rightarrow> children_loop children s')"

subsection \<open>ParseHtml\<close>

text \<open>
  \<^verbatim>\<open>gumbo_parse\<close> is the external parser: \<open>ParseHtml\<close> takes the root of the tree it
  returns (\<^verbatim>\<open>gumbo->root\<close>).
\<close>

definition ParseHtml :: "GumboNode \<Rightarrow> error + HtmlSection list" where
  "ParseHtml root =
     (case GumboTreeToHtmlSections root [HtmlSection_new] of
        Inl e \<Rightarrow> Inl e
      | Inr s \<Rightarrow>
          if s = [] then Inl VectorBackOnEmpty
          else if section_text (last s) = [] then Inr (butlast s)
          else Inr s)"

subsection \<open>Notions of the statements\<close>

text \<open>Trailing whitespace removed, as a list function.\<close>

definition strip_trailing_whitespace :: "string \<Rightarrow> string" where
  "strip_trailing_whitespace out = rev (dropWhile isspace (rev out))"

text \<open>
  \<open>single_spaces\<close>: every whitespace character is a space and none is followed by a
  whitespace character, that is, every run of whitespace is one space.
\<close>

fun single_spaces :: "string \<Rightarrow> bool" where
  "single_spaces [] = True"
| "single_spaces [c] = (isspace c \<longrightarrow> c = CHR 0x20)"
| "single_spaces (c # d # cs) =
     ((isspace c \<longrightarrow> c = CHR 0x20 \<and> \<not> isspace d) \<and> single_spaces (d # cs))"

text \<open>
  Normalised text, in the words of the specification: no leading whitespace, and every
  internal run of whitespace is a single space. The internal runs are those of the text
  before its trailing whitespace; the trailing run itself is not constrained.
\<close>

definition normalized :: "string \<Rightarrow> bool" where
  "normalized x \<longleftrightarrow> \<not> isspace (deref x) \<and> single_spaces (strip_trailing_whitespace x)"

text \<open>
  Fully normalised text: no leading whitespace, and every run of whitespace, the trailing
  one included, is a single space.
\<close>

definition fully_normalized :: "string \<Rightarrow> bool" where
  "fully_normalized x \<longleftrightarrow> \<not> isspace (deref x) \<and> single_spaces x"

text \<open>
  The text the leading-whitespace decision looks at, in the words of the specification: the
  last section's text when that is not empty, the second-to-last section's text otherwise.
\<close>

definition relevant_text :: "HtmlSection list \<Rightarrow> string" where
  "relevant_text s =
     (if section_text (last s) \<noteq> [] then section_text (last s) else section_text (rev s ! 1))"

definition ends_in_whitespace :: "string \<Rightarrow> bool" where
  "ends_in_whitespace t \<longleftrightarrow> t \<noteq> [] \<and> isspace (last t)"

text \<open>The number of anchor elements of a tree.\<close>

fun anchors :: "GumboNode \<Rightarrow> nat" where
  "anchors (GUMBO_NODE_ELEMENT tag attributes children) =
     (if tag = GUMBO_TAG_A then 1 else 0) + sum_list (map anchors children)"
| "anchors (GUMBO_NODE_TEXT t) = 0"
| "anchors GUMBO_NODE_OTHER = 0"

text \<open>The number of anchor elements of a tree that have an \<^verbatim>\<open>href\<close> attribute.\<close>

fun hrefs :: "GumboNode \<Rightarrow> nat" where
  "hrefs (GUMBO_NODE_ELEMENT tag attributes children) =
     (if tag = GUMBO_TAG_A \<and> gumbo_get_attribute attributes ''href'' \<noteq> None then 1 else 0) +
     sum_list (map hrefs children)"
| "hrefs (GUMBO_NODE_TEXT t) = 0"
| "hrefs GUMBO_NODE_OTHER = 0"

text \<open>The sections of \<open>s\<close> have in \<open>s'\<close> the links they have in \<open>s\<close>.\<close>

definition links_kept :: "HtmlSection list \<Rightarrow> HtmlSection list \<Rightarrow> bool" where
  "links_kept s s' \<longleftrightarrow> take (length s) (map section_link s') = map section_link s"

text \<open>The tags that take the \<^verbatim>\<open>default\<close> branch of both switches.\<close>

fun inert_tag :: "GumboTag \<Rightarrow> bool" where
  "inert_tag GUMBO_TAG_HTML = True"
| "inert_tag GUMBO_TAG_HEAD = True"
| "inert_tag GUMBO_TAG_BODY = True"
| "inert_tag (GUMBO_TAG_OTHER n) = True"
| "inert_tag _ = False"

text \<open>A tree with no text content: it has no text node, or only empty ones.\<close>

fun no_text_content :: "GumboNode \<Rightarrow> bool" where
  "no_text_content (GUMBO_NODE_ELEMENT tag attributes children) = list_all no_text_content children"
| "no_text_content (GUMBO_NODE_TEXT t) = (t = [])"
| "no_text_content GUMBO_NODE_OTHER = True"

fun inert_tags_only :: "GumboNode \<Rightarrow> bool" where
  "inert_tags_only (GUMBO_NODE_ELEMENT tag attributes children) =
     (inert_tag tag \<and> list_all inert_tags_only children)"
| "inert_tags_only (GUMBO_NODE_TEXT t) = True"
| "inert_tags_only GUMBO_NODE_OTHER = True"

text \<open>
  The tree of \<^verbatim>\<open><p>Hello <a href="http://x">world</a>!</p>\<close>: the parser puts the
  paragraph in the body of the \<^verbatim>\<open>html\<close> root it makes.
\<close>

definition hello_world_paragraph :: "GumboNode list" where
  "hello_world_paragraph =
     [GUMBO_NODE_TEXT ''Hello '',
      GUMBO_NODE_ELEMENT GUMBO_TAG_A [(''href'', ''http://x'')] [GUMBO_NODE_TEXT ''world''],
      GUMBO_NODE_TEXT ''!'']"

definition hello_world_document :: GumboNode where
  "hello_world_document =
     GUMBO_NODE_ELEMENT GUMBO_TAG_HTML []
       [GUMBO_NODE_ELEMENT GUMBO_TAG_HEAD [] [],
        GUMBO_NODE_ELEMENT GUMBO_TAG_BODY []
          [GUMBO_NODE_ELEMENT GUMBO_TAG_P [] hello_world_paragraph]]"

text \<open>The tree of the empty input, and of \<^verbatim>\<open><hr>\<close>.\<close>

definition empty_document :: GumboNode where
  "empty_document =
     GUMBO_NODE_ELEMENT GUMBO_TAG_HTML []
       [GUMBO_NODE_ELEMENT GUMBO_TAG_HEAD [] [], GUMBO_NODE_ELEMENT GUMBO_TAG_BODY [] []]"

definition rule_document :: GumboNode where
  "rule_document =
     GUMBO_NODE_ELEMENT GUMBO_TAG_HTML []
       [GUMBO_NODE_ELEMENT GUMBO_TAG_HEAD [] [],
        GUMBO_NODE_ELEMENT GUMBO_TAG_BODY [] [GUMBO_NODE_ELEMENT GUMBO_TAG_HR [] []]]"


section \<open>The whitespace normaliser\<close>

text \<open>The loop, one character at a time.\<close>

lemma trim_loop_Nil: "trim_loop [] out = out"
  by (simp add: trim_loop.simps [of "[]"])

lemma trim_loop_word:
  "\<not> isspace c \<Longrightarrow> c \<noteq> CHR 0x00 \<Longrightarrow> trim_loop (c # cs) out = trim_loop cs (out @ [c])"
  by (simp add: trim_loop.simps [of "c # cs"] trim_loop.simps [of cs])

lemma trim_loop_NUL: "trim_loop (CHR 0x00 # cs) out = out"
  by (simp add: trim_loop.simps [of "CHR 0x00 # cs"] isspace_def)

lemma trim_loop_space:
  "isspace c \<Longrightarrow> trim_loop (c # cs) out = trim_loop (skip_whitespace cs) (out @ [CHR 0x20])"
  by (auto simp add: trim_loop.simps [of "c # cs"] isspace_def)

lemma skip_whitespace_append:
  "\<exists>c\<in>set u. \<not> isspace c \<Longrightarrow> skip_whitespace (u @ ws) = skip_whitespace u @ ws"
  by (induction u) auto

lemma skip_whitespace_all: "\<forall>c\<in>set ws. isspace c \<Longrightarrow> skip_whitespace ws = []"
  by (induction ws) auto

lemma skip_whitespace_keeps:
  "u \<noteq> [] \<Longrightarrow> \<not> isspace (last u) \<Longrightarrow>
   skip_whitespace u \<noteq> [] \<and> last (skip_whitespace u) = last u \<and> set (skip_whitespace u) \<subseteq> set u"
  by (induction u) (auto split: if_splits)

text \<open>
  A trailing run of whitespace after a last word comes out as one space, whatever its
  length and its characters.
\<close>

lemma trim_loop_trailing:
  "c_string u \<Longrightarrow> u \<noteq> [] \<Longrightarrow> \<not> isspace (last u) \<Longrightarrow> ws \<noteq> [] \<Longrightarrow> \<forall>c\<in>set ws. isspace c \<Longrightarrow>
   trim_loop (u @ ws) out = trim_loop u out @ [CHR 0x20] \<and> last (trim_loop u out) = last u"
proof (induction "length u" arbitrary: u out rule: less_induct)
  case less
  from less.prems obtain c cs where u: "u = c # cs" by (cases u) auto
  show ?case
  proof (cases "isspace c")
    case True
    with less.prems u have cs: "cs \<noteq> []" "\<not> isspace (last cs)" by (auto split: if_splits)
    then have k: "skip_whitespace cs \<noteq> []" "last (skip_whitespace cs) = last cs"
      "set (skip_whitespace cs) \<subseteq> set cs"
      using skip_whitespace_keeps [of cs] by auto
    have ex: "\<exists>c\<in>set cs. \<not> isspace c" using cs last_in_set by blast
    have len: "length (skip_whitespace cs) < length u"
      using length_skip_whitespace [of cs] u by simp
    have cstr: "c_string (skip_whitespace cs)"
      using less.prems(1) k(3) u by (auto simp: c_string_def)
    from less.hyps [OF len cstr k(1) _ less.prems(4,5), of "out @ [CHR 0x20]"] k(2) cs(2)
    have "trim_loop (skip_whitespace cs @ ws) (out @ [CHR 0x20]) =
        trim_loop (skip_whitespace cs) (out @ [CHR 0x20]) @ [CHR 0x20] \<and>
        last (trim_loop (skip_whitespace cs) (out @ [CHR 0x20])) = last cs"
      by simp
    with True u cs ex show ?thesis
      by (simp add: trim_loop_space skip_whitespace_append)
  next
    case False
    from less.prems(1) u have nz: "c \<noteq> CHR 0x00" by (auto simp: c_string_def)
    show ?thesis
    proof (cases "cs = []")
      case True
      with False nz u less.prems(4,5) show ?thesis
        by (cases ws) (simp_all add: trim_loop_word trim_loop_Nil trim_loop_space skip_whitespace_all)
    next
      case ne: False
      with less.prems u have "c_string cs" "\<not> isspace (last cs)" by (auto simp: c_string_def)
      from less.hyps [OF _ this(1) ne this(2) less.prems(4,5), of "out @ [c]"] u ne False nz
      show ?thesis by (simp add: trim_loop_word)
    qed
  qed
qed

text \<open>
  C1 (as stated). The claim has the trailing whitespace of the input kept verbatim, and
  \<^verbatim>\<open>"  hello   world  "\<close> normalised to \<^verbatim>\<open>"hello world  "\<close> with two trailing
  spaces. The loop treats the trailing run like every other run: it skips it and appends
  one space, so the result is not the claimed string.
\<close>

theorem TrimHtmlWhitespace_trailing_not_verbatim:
  "TrimHtmlWhitespace ''  hello   world  '' True [] \<noteq> ''hello world  ''"
  by (simp add: TrimHtmlWhitespace_def trim_loop_word trim_loop_space trim_loop_Nil isspace_def)

text \<open>
  C1 (amended). TrimHtmlWhitespace does not remove the trailing whitespace of its input,
  and collapses it to exactly one space: for every destination buffer, either value of the
  flag and every input \<open>u @ ws\<close> where \<open>u\<close> ends in a character that is not whitespace and
  \<open>ws\<close> is a non-empty run of whitespace, the result is the result for \<open>u\<close>, which ends in
  the last character of \<open>u\<close>, followed by a single space. On \<^verbatim>\<open>"  hello   world  "\<close>
  with the flag set and an empty buffer the result is \<^verbatim>\<open>"hello world "\<close>: the leading
  run removed, the internal run collapsed, one trailing space.
\<close>

theorem TrimHtmlWhitespace_trailing_one_space:
  "(c_string u \<and> u \<noteq> [] \<and> \<not> isspace (last u) \<and> ws \<noteq> [] \<and> (\<forall>c\<in>set ws. isspace c) \<longrightarrow>
      TrimHtmlWhitespace (u @ ws) trim_leading_whitespace out =
        TrimHtmlWhitespace u trim_leading_whitespace out @ [CHR 0x20] \<and>
      last (TrimHtmlWhitespace u trim_leading_whitespace out) = last u) \<and>
   TrimHtmlWhitespace ''  hello   world  '' True [] = ''hello world ''"
proof (intro conjI impI)
  assume a: "c_string u \<and> u \<noteq> [] \<and> \<not> isspace (last u) \<and> ws \<noteq> [] \<and> (\<forall>c\<in>set ws. isspace c)"
  then have k: "skip_whitespace u \<noteq> []" "last (skip_whitespace u) = last u"
    "set (skip_whitespace u) \<subseteq> set u"
    using skip_whitespace_keeps [of u] by auto
  from a have ex: "\<exists>c\<in>set u. \<not> isspace c" using last_in_set by blast
  from a k(3) have cstr: "c_string (skip_whitespace u)" by (auto simp: c_string_def)
  from a k(2) have sp: "\<not> isspace (last (skip_whitespace u))" by simp
  show "TrimHtmlWhitespace (u @ ws) trim_leading_whitespace out =
      TrimHtmlWhitespace u trim_leading_whitespace out @ [CHR 0x20]"
    using a ex trim_loop_trailing [of u ws out]
      trim_loop_trailing [OF cstr k(1) sp, of ws out]
    by (simp add: TrimHtmlWhitespace_def skip_whitespace_append)
  show "last (TrimHtmlWhitespace u trim_leading_whitespace out) = last u"
    using a k(2) trim_loop_trailing [of u ws out]
      trim_loop_trailing [OF cstr k(1) sp, of ws out]
    by (simp add: TrimHtmlWhitespace_def)
next
  show "TrimHtmlWhitespace ''  hello   world  '' True [] = ''hello world ''"
    by (simp add: TrimHtmlWhitespace_def trim_loop_word trim_loop_space trim_loop_Nil isspace_def)
qed

theorem TrimHtmlWhitespace_trailing_one_space_witness:
  "TrimHtmlWhitespace (''ab'' @ [CHR 0x20, CHR 0x09, CHR 0x0A]) False ''x'' =
     TrimHtmlWhitespace ''ab'' False ''x'' @ [CHR 0x20] \<and>
   last (TrimHtmlWhitespace ''ab'' False ''x'') = last ''ab'' \<and>
   TrimHtmlWhitespace ''ab'' False ''x'' = ''xab''"
proof -
  have h: "c_string ''ab'' \<and> ''ab'' \<noteq> [] \<and> \<not> isspace (last ''ab'') \<and>
      [CHR 0x20, CHR 0x09, CHR 0x0A] \<noteq> [] \<and> (\<forall>c\<in>set [CHR 0x20, CHR 0x09, CHR 0x0A]. isspace c)"
    by (simp add: c_string_def isspace_def)
  have "TrimHtmlWhitespace ''ab'' False ''x'' = ''xab''"
    by (simp add: TrimHtmlWhitespace_def trim_loop_word trim_loop_Nil isspace_def)
  with h TrimHtmlWhitespace_trailing_one_space
    [of "''ab''" "[CHR 0x20, CHR 0x09, CHR 0x0A]" False "''x''"]
  show ?thesis by blast
qed

subsection \<open>Normalised text is a fixed point\<close>

lemma single_spaces_tl: "single_spaces (c # cs) \<Longrightarrow> single_spaces cs"
  by (cases cs) auto

lemma skip_whitespace_id: "\<not> isspace (deref t) \<Longrightarrow> skip_whitespace t = t"
  by (cases t) (auto simp: isspace_def)

lemma deref_skip_whitespace: "\<not> isspace (deref (skip_whitespace t))"
  by (induction t) (auto simp: isspace_def)

lemma trim_loop_single_spaces:
  "c_string x \<Longrightarrow> single_spaces x \<Longrightarrow> trim_loop x out = out @ x"
proof (induction x arbitrary: out)
  case Nil
  then show ?case by (simp add: trim_loop_Nil)
next
  case (Cons c cs)
  then have cs: "c_string cs" "single_spaces cs" and nz: "c \<noteq> CHR 0x00"
    using single_spaces_tl [of c cs] by (auto simp: c_string_def)
  show ?case
  proof (cases "isspace c")
    case True
    with Cons.prems(2) have "c = CHR 0x20" "\<not> isspace (deref cs)"
      by (cases cs; auto simp: isspace_def)+
    with True Cons.IH [OF cs, of "out @ [CHR 0x20]"] show ?thesis
      by (simp add: trim_loop_space skip_whitespace_id)
  next
    case False
    with nz Cons.IH [OF cs, of "out @ [c]"] show ?thesis
      by (simp add: trim_loop_word)
  qed
qed

lemma single_spaces_snoc_word:
  "single_spaces out \<Longrightarrow> \<not> isspace c \<Longrightarrow> single_spaces (out @ [c])"
  by (induction out rule: single_spaces.induct) auto

lemma single_spaces_snoc_space:
  "single_spaces out \<Longrightarrow> out = [] \<or> \<not> isspace (last out) \<Longrightarrow> single_spaces (out @ [CHR 0x20])"
  by (induction out rule: single_spaces.induct) (auto simp: isspace_def)

text \<open>
  The invariant of the loop: the buffer has single spaces only, and where it ends in
  whitespace the pointer is not at whitespace.
\<close>

lemma trim_loop_keeps_single_spaces:
  "single_spaces out \<Longrightarrow> out = [] \<or> \<not> isspace (last out) \<or> \<not> isspace (deref t) \<Longrightarrow>
   single_spaces (trim_loop t out)"
proof (induction "length t" arbitrary: t out rule: less_induct)
  case less
  show ?case
  proof (cases t)
    case Nil
    with less.prems show ?thesis by (simp add: trim_loop_Nil)
  next
    case (Cons c cs)
    show ?thesis
    proof (cases "isspace c")
      case True
      have len: "length (skip_whitespace cs) < length t"
        using length_skip_whitespace [of cs] Cons by simp
      from True Cons less.prems have "single_spaces (out @ [CHR 0x20])"
        by (auto intro: single_spaces_snoc_space)
      from less.hyps [OF len this] deref_skip_whitespace [of cs] True Cons show ?thesis
        by (simp add: trim_loop_space)
    next
      case False
      show ?thesis
      proof (cases "c = CHR 0x00")
        case True
        with Cons less.prems show ?thesis by (simp add: trim_loop_NUL)
      next
        case nz: False
        from False less.prems have "single_spaces (out @ [c])"
          by (auto intro: single_spaces_snoc_word)
        from less.hyps [OF _ this, of cs] False nz Cons show ?thesis
          by (simp add: trim_loop_word)
      qed
    qed
  qed
qed

lemma trim_loop_c_string: "c_string out \<Longrightarrow> c_string (trim_loop t out)"
proof (induction "length t" arbitrary: t out rule: less_induct)
  case less
  show ?case
  proof (cases t)
    case Nil
    with less.prems show ?thesis by (simp add: trim_loop_Nil)
  next
    case (Cons c cs)
    have len: "length (skip_whitespace cs) < length t"
      using length_skip_whitespace [of cs] Cons by simp
    have sp: "c_string (out @ [CHR 0x20])" using less.prems by (simp add: c_string_def)
    show ?thesis
    proof (cases "isspace c")
      case True
      with less.hyps [OF len sp] Cons show ?thesis by (simp add: trim_loop_space)
    next
      case False
      show ?thesis
      proof (cases "c = CHR 0x00")
        case True
        with Cons less.prems show ?thesis by (simp add: trim_loop_NUL)
      next
        case nz: False
        with less.prems have "c_string (out @ [c])" by (simp add: c_string_def)
        from less.hyps [OF _ this, of cs] False nz Cons show ?thesis
          by (simp add: trim_loop_word)
      qed
    qed
  qed
qed

text \<open>The loop only appends to the buffer.\<close>

lemma trim_loop_appends: "\<exists>r. trim_loop t out = out @ r"
proof (induction "length t" arbitrary: t out rule: less_induct)
  case less
  show ?case
  proof (cases t)
    case Nil
    then show ?thesis by (simp add: trim_loop_Nil)
  next
    case (Cons c cs)
    have len: "length (skip_whitespace cs) < length t"
      using length_skip_whitespace [of cs] Cons by simp
    show ?thesis
    proof (cases "isspace c")
      case True
      with less.hyps [OF len, of "out @ [CHR 0x20]"] Cons show ?thesis
        by (auto simp add: trim_loop_space)
    next
      case False
      show ?thesis
      proof (cases "c = CHR 0x00")
        case True
        with Cons show ?thesis by (simp add: trim_loop_NUL)
      next
        case nz: False
        from less.hyps [of cs "out @ [c]"] False nz Cons show ?thesis
          by (auto simp add: trim_loop_word)
      qed
    qed
  qed
qed

lemma trim_loop_no_leading_whitespace:
  "\<not> isspace (deref t) \<Longrightarrow> \<not> isspace (deref (trim_loop t []))"
proof (cases t)
  case Nil
  then show ?thesis by (simp add: trim_loop_Nil isspace_def)
next
  case (Cons c cs)
  assume "\<not> isspace (deref t)"
  with Cons have c: "\<not> isspace c" by simp
  show ?thesis
  proof (cases "c = CHR 0x00")
    case True
    with Cons show ?thesis by (simp add: trim_loop_NUL isspace_def)
  next
    case False
    obtain r where "trim_loop cs [c] = [c] @ r" using trim_loop_appends [of cs "[c]"] by blast
    with c False Cons show ?thesis by (simp add: trim_loop_word)
  qed
qed

lemma TrimHtmlWhitespace_output_normalized:
  "fully_normalized (TrimHtmlWhitespace t True []) \<and> c_string (TrimHtmlWhitespace t True [])"
  using trim_loop_no_leading_whitespace [OF deref_skip_whitespace, of t]
    trim_loop_keeps_single_spaces [of "[]" "skip_whitespace t"]
    trim_loop_c_string [of "[]" "skip_whitespace t"]
  by (simp add: TrimHtmlWhitespace_def fully_normalized_def c_string_def)

text \<open>
  C9 (as stated). The claim: every string that is already normalised (no leading
  whitespace, every internal whitespace run a single space) is returned unchanged by
  TrimHtmlWhitespace with the flag set and an empty destination buffer. The string
  \<^verbatim>\<open>"hello world  "\<close> has no leading whitespace and its only internal run is one
  space, but its trailing run of two spaces is collapsed to one: the result is
  \<^verbatim>\<open>"hello world "\<close>, not the input.
\<close>

theorem TrimHtmlWhitespace_changes_trailing_run:
  "c_string ''hello world  '' \<and> normalized ''hello world  '' \<and>
   TrimHtmlWhitespace ''hello world  '' True [] = ''hello world '' \<and>
   TrimHtmlWhitespace ''hello world  '' True [] \<noteq> ''hello world  ''"
  by (simp add: c_string_def normalized_def strip_trailing_whitespace_def isspace_def
      TrimHtmlWhitespace_def trim_loop_word trim_loop_space trim_loop_Nil)

text \<open>
  C9 (amended). TrimHtmlWhitespace is idempotent on its own outputs. A string is returned
  unchanged by TrimHtmlWhitespace with the flag set and an empty destination buffer if and
  only if it is fully normalised: the content of a C string with no leading whitespace in
  which every run of whitespace, the trailing one included, is a single space. Every
  output of TrimHtmlWhitespace with the flag set and an empty buffer is such a string, so
  normalising it again changes nothing.
\<close>

theorem TrimHtmlWhitespace_idempotent:
  "(TrimHtmlWhitespace x True [] = x \<longleftrightarrow> c_string x \<and> fully_normalized x) \<and>
   TrimHtmlWhitespace (TrimHtmlWhitespace t True []) True [] = TrimHtmlWhitespace t True []"
proof -
  have fixpoint: "TrimHtmlWhitespace x True [] = x" if "c_string x" "fully_normalized x" for x
    using that trim_loop_single_spaces [of x "[]"]
    by (simp add: TrimHtmlWhitespace_def fully_normalized_def skip_whitespace_id)
  have conv: "c_string x \<and> fully_normalized x" if "TrimHtmlWhitespace x True [] = x" for x
    using TrimHtmlWhitespace_output_normalized [of x] that by simp
  show ?thesis
    using fixpoint conv fixpoint [of "TrimHtmlWhitespace t True []"]
      TrimHtmlWhitespace_output_normalized [of t]
    by blast
qed

theorem TrimHtmlWhitespace_idempotent_witness:
  "c_string ''hello world '' \<and> fully_normalized ''hello world '' \<and>
   TrimHtmlWhitespace ''hello world '' True [] = ''hello world ''"
proof -
  have h: "c_string ''hello world '' \<and> fully_normalized ''hello world ''"
    by (simp add: c_string_def fully_normalized_def isspace_def)
  with TrimHtmlWhitespace_idempotent [of "''hello world ''"] show ?thesis
    by blast
qed

section \<open>The helpers\<close>

subsection \<open>StartHtmlLine\<close>

lemma trim_trailing_whitespace_error:
  "trim_trailing_whitespace out = Inl e \<Longrightarrow> e = StringBackOnEmpty"
  by (induction out rule: trim_trailing_whitespace.induct)
    (subst (asm) trim_trailing_whitespace.simps, auto split: if_splits)

text \<open>
  What the loop computes: it stops with the trimmed buffer at a character that is not
  whitespace, and reads the last character of an empty buffer when there is none.
\<close>

lemma trim_trailing_whitespace_eq:
  "trim_trailing_whitespace out =
     (if \<forall>c\<in>set out. isspace c then Inl StringBackOnEmpty
      else Inr (strip_trailing_whitespace out))"
proof (induction out rule: rev_induct)
  case Nil
  then show ?case by (simp add: trim_trailing_whitespace.simps [of "[]"])
next
  case (snoc c out)
  then show ?case
    by (simp add: trim_trailing_whitespace.simps [of "out @ [c]"] strip_trailing_whitespace_def)
qed

lemma StartHtmlLine_eq:
  "StartHtmlLine prefix out =
     (if \<forall>c\<in>set out. isspace c then Inl StringBackOnEmpty
      else Inr (strip_trailing_whitespace out @ prefix))"
  by (auto simp: StartHtmlLine_def trim_trailing_whitespace_eq strip_trailing_whitespace_def
      dropWhile_eq_Nil_conv)

lemma StartHtmlLine_error: "StartHtmlLine prefix out = Inl e \<Longrightarrow> e = StringBackOnEmpty"
  by (auto simp: StartHtmlLine_def split: sum.splits dest: trim_trailing_whitespace_error)

text \<open>The equations that evaluate the model on a concrete input.\<close>

lemmas eval_simps =
  ParseHtml_def HtmlSection_new_def append_at_back_def set_back_text_def start_line_at_back_def
  StartHtmlLine_def trim_trailing_whitespace.simps append_text_def ShouldTrimLeadingWhitespace_def
  TrimHtmlWhitespace_def trim_loop_word trim_loop_space trim_loop_Nil isspace_def record_link_def

text \<open>
  C7. The claim: for every buffer and every prefix, StartHtmlLine removes the trailing
  whitespace of the buffer and appends the prefix if and only if the buffer is not empty
  then; a buffer of whitespace only is left empty, with no prefix. On a buffer with a
  character that is not whitespace the code does so (\<open>StartHtmlLine_eq\<close>). On an empty
  buffer, and on a buffer of whitespace only once the loop has emptied it, the loop
  condition reads \<^verbatim>\<open>out->back()\<close> of an empty string: the code does not leave the
  buffer empty, it has no defined behaviour there.
\<close>

theorem StartHtmlLine_whitespace_only_buffer:
  "StartHtmlLine [CHR 0x0A, CHR 0x0A] [] = Inl StringBackOnEmpty \<and>
   StartHtmlLine [CHR 0x0A, CHR 0x0A] [CHR 0x20, CHR 0x09] = Inl StringBackOnEmpty \<and>
   StartHtmlLine [CHR 0x0A, CHR 0x0A] ''ab  '' = Inr (''ab'' @ [CHR 0x0A, CHR 0x0A])"
  by (simp add: eval_simps)

subsection \<open>ShouldTrimLeadingWhitespace\<close>

text \<open>
  C5. ShouldTrimLeadingWhitespace returns true if and only if the sequence has at most one
  section, or else the relevant text (the last section's text when that is not empty, the
  second-to-last section's text otherwise) ends in a whitespace character. Where the
  sequence has at most one section or the relevant text is not empty, the function returns
  that truth value.
\<close>

theorem ShouldTrimLeadingWhitespace_iff:
  "(ShouldTrimLeadingWhitespace s = Inr True \<longleftrightarrow>
      length s \<le> 1 \<or> ends_in_whitespace (relevant_text s)) \<and>
   (length s \<le> 1 \<or> relevant_text s \<noteq> [] \<longrightarrow>
      ShouldTrimLeadingWhitespace s = Inr (length s \<le> 1 \<or> ends_in_whitespace (relevant_text s)))"
proof (cases "length s \<le> 1")
  case True
  then show ?thesis by (simp add: ShouldTrimLeadingWhitespace_def)
next
  case False
  then have "rev s ! 1 = s ! (length s - 2)"
    using rev_nth [of 1 s] by (simp add: numeral_2_eq_2)
  with False show ?thesis
    by (auto simp: ShouldTrimLeadingWhitespace_def relevant_text_def ends_in_whitespace_def Let_def)
qed

theorem ShouldTrimLeadingWhitespace_iff_witness:
  "ShouldTrimLeadingWhitespace [\<lparr>section_text = ''Hello '', section_link = []\<rparr>, HtmlSection_new]
     = Inr True \<and>
   ShouldTrimLeadingWhitespace
     [\<lparr>section_text = ''Hello '', section_link = []\<rparr>, \<lparr>section_text = ''world'', section_link = []\<rparr>]
     = Inr False \<and>
   ShouldTrimLeadingWhitespace [HtmlSection_new] = Inr True"
proof -
  let ?a = "\<lparr>section_text = ''Hello '', section_link = []\<rparr>"
  let ?b = "\<lparr>section_text = ''world'', section_link = []\<rparr>"
  have "relevant_text [?a, HtmlSection_new] = ''Hello ''" "relevant_text [?a, ?b] = ''world''"
    by (simp_all add: relevant_text_def HtmlSection_new_def)
  moreover have "ends_in_whitespace ''Hello ''" "\<not> ends_in_whitespace ''world''"
    by (simp_all add: ends_in_whitespace_def isspace_def)
  ultimately show ?thesis
    using ShouldTrimLeadingWhitespace_iff [of "[?a, HtmlSection_new]"]
      ShouldTrimLeadingWhitespace_iff [of "[?a, ?b]"]
      ShouldTrimLeadingWhitespace_iff [of "[HtmlSection_new]"]
    by simp
qed

section \<open>The tree walk\<close>

subsection \<open>The length of the sequence\<close>

lemma length_set_back_text: "s \<noteq> [] \<Longrightarrow> length (set_back_text s t) = length s"
  by (simp add: set_back_text_def)

lemma start_line_at_back_length: "start_line_at_back s = Inr s' \<Longrightarrow> s \<noteq> [] \<and> length s' = length s"
  by (auto simp: start_line_at_back_def length_set_back_text split: if_splits sum.splits)

lemma append_at_back_length: "append_at_back str s = Inr s' \<Longrightarrow> s \<noteq> [] \<and> length s' = length s"
  by (auto simp: append_at_back_def length_set_back_text split: if_splits)

lemma append_text_length: "append_text t s = Inr s' \<Longrightarrow> s \<noteq> [] \<and> length s' = length s"
  by (auto simp: append_text_def length_set_back_text split: if_splits sum.splits)

lemma record_link_length: "record_link attributes k s = Inr s' \<Longrightarrow> length s' = length s"
  by (auto simp: record_link_def split: option.splits if_splits)

lemma TreePrefix_sections:
  "TreePrefix tag s = Inr s' \<Longrightarrow>
   (if tag = GUMBO_TAG_A \<and> section_text (last s) \<noteq> [] then s' = s @ [HtmlSection_new]
    else length s' = length s)"
  by (cases tag) (auto split: if_splits dest: start_line_at_back_length)

lemma TreePostfix_sections:
  "TreePostfix tag attributes k s = Inr s' \<Longrightarrow>
   (if tag = GUMBO_TAG_A then length s' = Suc (length s) \<and> last s' = HtmlSection_new
    else length s' = length s)"
  by (cases tag) (auto split: sum.splits dest: append_at_back_length record_link_length)

text \<open>Every anchor of the tree adds one or two sections, and nothing else adds or removes one.\<close>

lemma walk_length:
  "GumboTreeToHtmlSections node s = Inr s' \<Longrightarrow>
     length s + anchors node \<le> length s' \<and> length s' \<le> length s + 2 * anchors node"
  "children_loop children s = Inr s' \<Longrightarrow>
     length s + sum_list (map anchors children) \<le> length s' \<and>
     length s' \<le> length s + 2 * sum_list (map anchors children)"
proof (induction node s and children s arbitrary: s' and s'
    rule: GumboTreeToHtmlSections_children_loop.induct)
  case (1 tag attributes children s)
  from "1.prems" obtain s1 s2 where
    p: "TreePrefix tag s = Inr s1" and c: "children_loop children s1 = Inr s2"
    and q: "TreePostfix tag attributes (length s1 - 1) s2 = Inr s'"
    by (auto split: sum.splits)
  from "1.IH" [OF p c] TreePrefix_sections [OF p] TreePostfix_sections [OF q]
  show ?case by (auto split: if_splits)
next
  case (2 t s)
  then show ?case by (auto dest: append_text_length)
next
  case (3 s)
  then show ?case by simp
next
  case (4 s)
  then show ?case by simp
next
  case (5 child children s)
  from "5.prems" obtain s1 where
    a: "GumboTreeToHtmlSections child s = Inr s1" and b: "children_loop children s1 = Inr s'"
    by (auto split: sum.splits)
  from "5.IH"(1) [OF a] "5.IH"(2) [OF a b] show ?case by auto
qed



subsection \<open>The last section is always there\<close>

lemma start_line_at_back_error:
  "s \<noteq> [] \<Longrightarrow> start_line_at_back s = Inl e \<Longrightarrow> e = StringBackOnEmpty"
  by (auto simp: start_line_at_back_def split: sum.splits dest: StartHtmlLine_error)

lemma TreePrefix_error: "s \<noteq> [] \<Longrightarrow> TreePrefix tag s = Inl e \<Longrightarrow> e = StringBackOnEmpty"
  by (cases tag) (simp_all add: start_line_at_back_error split: if_splits)

lemma append_text_error: "s \<noteq> [] \<Longrightarrow> append_text t s = Inl e \<Longrightarrow> e = StringBackOnEmpty"
  by (auto simp: append_text_def ShouldTrimLeadingWhitespace_def Let_def split: if_splits sum.splits)

lemma record_link_ok: "k < length s \<Longrightarrow> \<exists>s'. record_link attributes k s = Inr s'"
  by (simp add: record_link_def split: option.splits)

lemma append_at_back_ok: "s \<noteq> [] \<Longrightarrow> \<exists>s'. append_at_back str s = Inr s'"
  by (simp add: append_at_back_def)

lemma TreePostfix_ok:
  "s \<noteq> [] \<Longrightarrow> k < length s \<Longrightarrow> \<exists>s'. TreePostfix tag attributes k s = Inr s'"
  using record_link_ok [of k s attributes]
  by (cases tag) (auto simp: append_at_back_ok)

lemma TreePostfix_error:
  "s \<noteq> [] \<Longrightarrow> k < length s \<Longrightarrow> TreePostfix tag attributes k s = Inl e \<Longrightarrow> e = StringBackOnEmpty"
  using TreePostfix_ok [of s k tag attributes] by auto

text \<open>On a non-empty sequence the only failure of the walk is the read of the last
  character of an empty string.\<close>

lemma walk_error:
  "s \<noteq> [] \<Longrightarrow> GumboTreeToHtmlSections node s = Inl e \<Longrightarrow> e = StringBackOnEmpty"
  "s \<noteq> [] \<Longrightarrow> children_loop children s = Inl e \<Longrightarrow> e = StringBackOnEmpty"
proof (induction node s and children s
    rule: GumboTreeToHtmlSections_children_loop.induct)
  case (1 tag attributes children s)
  show ?case
  proof (cases "TreePrefix tag s")
    case (Inl e1)
    with "1.prems" TreePrefix_error [of s tag e1] show ?thesis by simp
  next
    case p: (Inr s1)
    from TreePrefix_sections [OF p] "1.prems"(1) have s1: "s1 \<noteq> []"
      by (auto split: if_splits)
    show ?thesis
    proof (cases "children_loop children s1")
      case (Inl e2)
      with p "1.prems"(2) "1.IH" [OF p s1] show ?thesis by simp
    next
      case c: (Inr s2)
      from walk_length(2) [OF c] s1 have "s2 \<noteq> []" "length s1 - 1 < length s2"
        by (cases s1; auto)+
      with p c "1.prems"(2) TreePostfix_error [of s2 "length s1 - 1" tag attributes e]
      show ?thesis by simp
    qed
  qed
next
  case (2 t s)
  then show ?case by (auto dest: append_text_error)
next
  case (3 s)
  then show ?case by simp
next
  case (4 s)
  then show ?case by simp
next
  case (5 child children s)
  show ?case
  proof (cases "GumboTreeToHtmlSections child s")
    case (Inl e1)
    with "5.prems" "5.IH"(1) show ?thesis by simp
  next
    case a: (Inr s1)
    from walk_length(1) [OF a] "5.prems"(1) have "s1 \<noteq> []" by (cases s; auto)
    with a "5.prems"(2) "5.IH"(2) [OF a] show ?thesis by simp
  qed
qed

text \<open>
  C10. For every tree node and every non-empty sequence, GumboTreeToHtmlSections never
  reads the last element of an empty sequence and never indexes the sequence out of range,
  and the sequence it leaves is non-empty and at least as long as the one it was given;
  ParseHtml, which seeds the walk with one section, therefore never reads the last element
  of an empty sequence either, its final prune included.
\<close>

theorem sequence_stays_non_empty:
  "(s \<noteq> [] \<longrightarrow>
      GumboTreeToHtmlSections node s \<noteq> Inl VectorBackOnEmpty \<and>
      GumboTreeToHtmlSections node s \<noteq> Inl VectorIndexOutOfRange \<and>
      (\<forall>s'. GumboTreeToHtmlSections node s = Inr s' \<longrightarrow> s' \<noteq> [] \<and> length s \<le> length s')) \<and>
   ParseHtml root \<noteq> Inl VectorBackOnEmpty \<and> ParseHtml root \<noteq> Inl VectorIndexOutOfRange"
proof (intro conjI impI allI)
  assume s: "s \<noteq> []"
  show "GumboTreeToHtmlSections node s \<noteq> Inl VectorBackOnEmpty"
    using walk_error(1) [OF s, of node VectorBackOnEmpty] by auto
  show "GumboTreeToHtmlSections node s \<noteq> Inl VectorIndexOutOfRange"
    using walk_error(1) [OF s, of node VectorIndexOutOfRange] by auto
  fix s' assume r: "GumboTreeToHtmlSections node s = Inr s'"
  from walk_length(1) [OF r] show "length s \<le> length s'" by simp
  with s show "s' \<noteq> []" by auto
next
  have n: "[HtmlSection_new] \<noteq> []" by simp
  show "ParseHtml root \<noteq> Inl VectorBackOnEmpty"
    using walk_error(1) [OF n, of root VectorBackOnEmpty] walk_length(1) [of root "[HtmlSection_new]"]
    by (auto simp: ParseHtml_def split: sum.splits if_splits)
  show "ParseHtml root \<noteq> Inl VectorIndexOutOfRange"
    using walk_error(1) [OF n, of root VectorIndexOutOfRange]
    by (auto simp: ParseHtml_def split: sum.splits if_splits)
qed

theorem sequence_stays_non_empty_witness:
  "[HtmlSection_new] \<noteq> [] \<and>
   GumboTreeToHtmlSections
     (GUMBO_NODE_ELEMENT GUMBO_TAG_A [(''href'', ''u'')] [GUMBO_NODE_TEXT ''hi'']) [HtmlSection_new] =
     Inr [\<lparr>section_text = ''hi'', section_link = ''u''\<rparr>, HtmlSection_new] \<and>
   [\<lparr>section_text = ''hi'', section_link = ''u''\<rparr>, HtmlSection_new] \<noteq> [] \<and>
   length [HtmlSection_new] \<le> length [\<lparr>section_text = ''hi'', section_link = ''u''\<rparr>, HtmlSection_new]"
proof -
  let ?n = "GUMBO_NODE_ELEMENT GUMBO_TAG_A [(''href'', ''u'')] [GUMBO_NODE_TEXT ''hi'']"
  have n: "[HtmlSection_new] \<noteq> []" by simp
  have w: "GumboTreeToHtmlSections ?n [HtmlSection_new] =
      Inr [\<lparr>section_text = ''hi'', section_link = ''u''\<rparr>, HtmlSection_new]"
    by (simp add: eval_simps)
  from n w sequence_stays_non_empty [of "[HtmlSection_new]" ?n] show ?thesis
    by blast
qed

subsection \<open>Trees with no text\<close>

lemma append_text_empty: "append_text [] [x] = Inr [x]"
  by (simp add: append_text_def ShouldTrimLeadingWhitespace_def TrimHtmlWhitespace_def
      trim_loop_Nil set_back_text_def)

lemma TreePrefix_inert: "inert_tag tag \<Longrightarrow> TreePrefix tag s = Inr s"
  by (cases tag) auto

lemma TreePostfix_inert: "inert_tag tag \<Longrightarrow> TreePostfix tag attributes k s = Inr s"
  by (cases tag) auto

lemma walk_inert:
  "no_text_content node \<Longrightarrow> inert_tags_only node \<Longrightarrow> s = [x] \<Longrightarrow>
     GumboTreeToHtmlSections node s = Inr s"
  "list_all no_text_content children \<Longrightarrow> list_all inert_tags_only children \<Longrightarrow> s = [x] \<Longrightarrow>
     children_loop children s = Inr s"
proof (induction node s and children s rule: GumboTreeToHtmlSections_children_loop.induct)
  case (1 tag attributes children s)
  then show ?case by (simp add: TreePrefix_inert TreePostfix_inert)
next
  case (2 t s)
  then show ?case by (simp add: append_text_empty)
next
  case (3 s)
  then show ?case by simp
next
  case (4 s)
  then show ?case by simp
next
  case (5 child children s)
  then show ?case by simp
qed

text \<open>
  C3 (as stated). The claim: whenever the tree has no text content at all, ParseHtml
  returns a sequence of length zero. The tree of \<^verbatim>\<open><hr>\<close> has no text node, and the
  postfix processing of the horizontal rule appends two line feeds to the seed section,
  which is then not pruned: ParseHtml returns one section.
\<close>

theorem ParseHtml_no_text_not_empty:
  "no_text_content rule_document \<and>
   ParseHtml rule_document = Inr [\<lparr>section_text = [CHR 0x0A, CHR 0x0A], section_link = []\<rparr>] \<and>
   ParseHtml rule_document \<noteq> Inr []"
  by (simp add: rule_document_def ParseHtml_def HtmlSection_new_def append_at_back_def
      set_back_text_def)

text \<open>
  C3 (amended). For every tree that has no text content and no element with one of the
  tags the walk acts on (anchor, paragraph, heading, horizontal rule, line break), ParseHtml
  returns a sequence of length zero; the tree of the empty input string, an \<^verbatim>\<open>html\<close>
  root with an empty head and an empty body, is such a tree.
\<close>

theorem ParseHtml_no_text_inert:
  "(no_text_content root \<and> inert_tags_only root \<longrightarrow> ParseHtml root = Inr []) \<and>
   ParseHtml empty_document = Inr []"
proof -
  have "ParseHtml r = Inr []" if "no_text_content r" "inert_tags_only r" for r
    using walk_inert(1) [OF that, of "[HtmlSection_new]" HtmlSection_new]
    by (simp add: ParseHtml_def HtmlSection_new_def)
  from this this [of empty_document]
  show ?thesis by (simp add: empty_document_def)
qed

theorem ParseHtml_no_text_inert_witness:
  "no_text_content
     (GUMBO_NODE_ELEMENT GUMBO_TAG_HTML []
        [GUMBO_NODE_ELEMENT GUMBO_TAG_HEAD [] [GUMBO_NODE_OTHER],
         GUMBO_NODE_ELEMENT GUMBO_TAG_BODY [] [GUMBO_NODE_ELEMENT (GUMBO_TAG_OTHER 7) [] []]]) \<and>
   inert_tags_only
     (GUMBO_NODE_ELEMENT GUMBO_TAG_HTML []
        [GUMBO_NODE_ELEMENT GUMBO_TAG_HEAD [] [GUMBO_NODE_OTHER],
         GUMBO_NODE_ELEMENT GUMBO_TAG_BODY [] [GUMBO_NODE_ELEMENT (GUMBO_TAG_OTHER 7) [] []]]) \<and>
   ParseHtml
     (GUMBO_NODE_ELEMENT GUMBO_TAG_HTML []
        [GUMBO_NODE_ELEMENT GUMBO_TAG_HEAD [] [GUMBO_NODE_OTHER],
         GUMBO_NODE_ELEMENT GUMBO_TAG_BODY [] [GUMBO_NODE_ELEMENT (GUMBO_TAG_OTHER 7) [] []]]) = Inr []"
proof -
  let ?r = "GUMBO_NODE_ELEMENT GUMBO_TAG_HTML []
        [GUMBO_NODE_ELEMENT GUMBO_TAG_HEAD [] [GUMBO_NODE_OTHER],
         GUMBO_NODE_ELEMENT GUMBO_TAG_BODY [] [GUMBO_NODE_ELEMENT (GUMBO_TAG_OTHER 7) [] []]]"
  have h: "no_text_content ?r \<and> inert_tags_only ?r" by simp
  with ParseHtml_no_text_inert [of ?r] show ?thesis by blast
qed

subsection \<open>The reads of the last character of a string\<close>

text \<open>
  C2. The claim: for every tree, the walk of ParseHtml reads the last character of a
  string only when the string is not empty. The code has no such guard. The prefix
  processing of a paragraph (or heading) that opens the document calls StartHtmlLine on the
  empty text of the seed section, whose loop starts by reading \<^verbatim>\<open>out->back()\<close>; and
  after an anchor with no text, which leaves two sections with empty text, a text node makes
  ShouldTrimLeadingWhitespace read \<^verbatim>\<open>prev_text.back()\<close> of the empty second-to-last
  text. Both are reached from ParseHtml, on \<^verbatim>\<open><p>x</p>\<close> and on
  \<^verbatim>\<open><a></a>x\<close>.
\<close>

theorem ParseHtml_reads_back_of_empty_string:
  "StartHtmlLine [CHR 0x0A, CHR 0x0A] (section_text HtmlSection_new) = Inl StringBackOnEmpty \<and>
   ParseHtml (GUMBO_NODE_ELEMENT GUMBO_TAG_HTML []
     [GUMBO_NODE_ELEMENT GUMBO_TAG_HEAD [] [],
      GUMBO_NODE_ELEMENT GUMBO_TAG_BODY [] [GUMBO_NODE_ELEMENT GUMBO_TAG_P [] [GUMBO_NODE_TEXT ''x'']]])
     = Inl StringBackOnEmpty \<and>
   ShouldTrimLeadingWhitespace [HtmlSection_new, HtmlSection_new] = Inl StringBackOnEmpty \<and>
   ParseHtml (GUMBO_NODE_ELEMENT GUMBO_TAG_HTML []
     [GUMBO_NODE_ELEMENT GUMBO_TAG_HEAD [] [],
      GUMBO_NODE_ELEMENT GUMBO_TAG_BODY [] [GUMBO_NODE_ELEMENT GUMBO_TAG_A [] [], GUMBO_NODE_TEXT ''x'']])
     = Inl StringBackOnEmpty"
  by (simp add: eval_simps)

text \<open>
  C4. The claim: on the tree of \<^verbatim>\<open><p>Hello <a href="http://x">world</a>!</p>\<close>
  ParseHtml returns the sections \<^verbatim>\<open>{"Hello ", ""}\<close>, \<^verbatim>\<open>{"world", "http://x"}\<close>,
  \<^verbatim>\<open>{"!\n\n", ""}\<close>. The paragraph opens the document, so its prefix processing reads
  the last character of the empty text of the seed section, and the walk has no
  defined result. Past that read the code does what the claim says: the children of the
  paragraph, walked from the seed section, and the paragraph's postfix processing give the
  three sections.
\<close>

theorem ParseHtml_hello_world:
  "ParseHtml hello_world_document = Inl StringBackOnEmpty \<and>
   TreePrefix GUMBO_TAG_P [HtmlSection_new] = Inl StringBackOnEmpty \<and>
   children_loop hello_world_paragraph [HtmlSection_new] =
     Inr [\<lparr>section_text = ''Hello '', section_link = []\<rparr>,
          \<lparr>section_text = ''world'', section_link = ''http://x''\<rparr>,
          \<lparr>section_text = ''!'', section_link = []\<rparr>] \<and>
   TreePostfix GUMBO_TAG_P [] 0
     [\<lparr>section_text = ''Hello '', section_link = []\<rparr>,
      \<lparr>section_text = ''world'', section_link = ''http://x''\<rparr>,
      \<lparr>section_text = ''!'', section_link = []\<rparr>] =
     Inr [\<lparr>section_text = ''Hello '', section_link = []\<rparr>,
          \<lparr>section_text = ''world'', section_link = ''http://x''\<rparr>,
          \<lparr>section_text = ''!'' @ [CHR 0x0A, CHR 0x0A], section_link = []\<rparr>]"
  by (simp add: hello_world_document_def hello_world_paragraph_def eval_simps)

subsection \<open>Anchors and links\<close>

lemma set_back_text_links:
  "s \<noteq> [] \<Longrightarrow> map section_link (set_back_text s t) = map section_link s"
proof -
  assume "s \<noteq> []"
  then have "map section_link s = map section_link (butlast s @ [last s])" by simp
  then show ?thesis by (simp add: set_back_text_def)
qed

lemma set_back_text_last_link:
  "s \<noteq> [] \<Longrightarrow> section_link (last (set_back_text s t)) = section_link (last s)"
  by (simp add: set_back_text_def)

lemma start_line_at_back_links:
  "start_line_at_back s = Inr s' \<Longrightarrow> map section_link s' = map section_link s"
  by (auto simp: start_line_at_back_def set_back_text_links split: if_splits sum.splits)

lemma append_at_back_links:
  "append_at_back str s = Inr s' \<Longrightarrow> map section_link s' = map section_link s"
  by (auto simp: append_at_back_def set_back_text_links split: if_splits)

lemma append_text_links:
  "append_text t s = Inr s' \<Longrightarrow> map section_link s' = map section_link s"
  by (auto simp: append_text_def set_back_text_links split: if_splits sum.splits)

lemma links_kept_same: "map section_link s' = map section_link s \<Longrightarrow> links_kept s s'"
  using length_map [of section_link s] length_map [of section_link s']
  by (simp add: links_kept_def del: length_map)

lemma links_kept_refl: "links_kept s s"
  by (simp add: links_kept_def)

lemma links_kept_append: "links_kept s (s @ r)"
  by (simp add: links_kept_def)

lemma links_kept_length: "links_kept s s' \<Longrightarrow> length s \<le> length s'"
proof -
  assume "links_kept s s'"
  then have "length (take (length s) (map section_link s')) = length (map section_link s)"
    by (simp only: links_kept_def)
  then show ?thesis by simp
qed

lemma links_kept_trans: "links_kept a b \<Longrightarrow> links_kept b c \<Longrightarrow> links_kept a c"
proof -
  assume ab: "links_kept a b" and bc: "links_kept b c"
  from ab have le: "length a \<le> length b" by (rule links_kept_length)
  have "take (length a) (map section_link c) =
      take (length a) (take (length b) (map section_link c))"
    using le by (simp add: min_def)
  also have "\<dots> = take (length a) (map section_link b)"
    using bc by (simp only: links_kept_def)
  also have "\<dots> = map section_link a"
    using ab by (simp only: links_kept_def)
  finally show ?thesis by (simp only: links_kept_def)
qed

lemma links_kept_nth:
  "links_kept s s' \<Longrightarrow> k < length s \<Longrightarrow> section_link (s' ! k) = section_link (s ! k)"
proof -
  assume a: "links_kept s s'" and k: "k < length s"
  from a have le: "length s \<le> length s'" by (rule links_kept_length)
  have "section_link (s' ! k) = map section_link s' ! k" using k le by simp
  also have "\<dots> = take (length s) (map section_link s') ! k" using k by simp
  also have "\<dots> = map section_link s ! k" using a by (simp only: links_kept_def)
  also have "\<dots> = section_link (s ! k)" using k by simp
  finally show ?thesis .
qed

lemma TreePrefix_links_kept: "TreePrefix tag s = Inr s' \<Longrightarrow> links_kept s s'"
  by (cases tag)
    (auto split: if_splits intro: links_kept_refl links_kept_append
      dest: start_line_at_back_links links_kept_same)

lemma TreePostfix_links_kept:
  "tag \<noteq> GUMBO_TAG_A \<or> gumbo_get_attribute attributes ''href'' = None \<Longrightarrow>
   TreePostfix tag attributes k s = Inr s' \<Longrightarrow> links_kept s s'"
  by (cases tag)
    (auto simp: record_link_def intro: links_kept_refl links_kept_append
      dest: append_at_back_links links_kept_same)

text \<open>A tree in which no anchor has an \<^verbatim>\<open>href\<close> changes no link.\<close>

lemma walk_links_kept:
  "hrefs node = 0 \<Longrightarrow> GumboTreeToHtmlSections node s = Inr s' \<Longrightarrow> links_kept s s'"
  "sum_list (map hrefs children) = 0 \<Longrightarrow> children_loop children s = Inr s' \<Longrightarrow> links_kept s s'"
proof (induction node s and children s arbitrary: s' and s'
    rule: GumboTreeToHtmlSections_children_loop.induct)
  case (1 tag attributes children s)
  from "1.prems"(2) obtain s1 s2 where
    p: "TreePrefix tag s = Inr s1" and c: "children_loop children s1 = Inr s2"
    and q: "TreePostfix tag attributes (length s1 - 1) s2 = Inr s'"
    by (auto split: sum.splits)
  from "1.prems"(1) have t: "tag \<noteq> GUMBO_TAG_A \<or> gumbo_get_attribute attributes ''href'' = None"
    and z: "sum_list (map hrefs children) = 0"
    by (auto split: if_splits)
  from TreePrefix_links_kept [OF p] "1.IH" [OF p z c] TreePostfix_links_kept [OF t q]
  show ?case by (blast intro: links_kept_trans)
next
  case (2 t s)
  then show ?case by (auto dest: append_text_links links_kept_same)
next
  case (3 s)
  then show ?case by (simp add: links_kept_refl)
next
  case (4 s)
  then show ?case by (simp add: links_kept_refl)
next
  case (5 child children s)
  from "5.prems"(2) obtain s1 where
    a: "GumboTreeToHtmlSections child s = Inr s1" and b: "children_loop children s1 = Inr s'"
    by (auto split: sum.splits)
  from "5.prems"(1) have z: "hrefs child = 0" "sum_list (map hrefs children) = 0" by auto
  from "5.IH"(1) [OF z(1) a] "5.IH"(2) [OF a z(2) b] show ?case
    by (blast intro: links_kept_trans)
qed

text \<open>
  The last section has no link: this holds of the seed of ParseHtml, and every step of
  the walk keeps it.
\<close>

lemma TreePrefix_last_link:
  "TreePrefix tag s = Inr s' \<Longrightarrow> section_link (last s) = [] \<Longrightarrow> section_link (last s') = []"
  by (cases tag)
    (auto simp: start_line_at_back_def set_back_text_last_link HtmlSection_new_def
      split: if_splits sum.splits)

lemma TreePostfix_last_link:
  "TreePostfix tag attributes k s = Inr s' \<Longrightarrow> section_link (last s) = [] \<Longrightarrow>
   section_link (last s') = []"
  by (cases tag)
    (auto simp: append_at_back_def set_back_text_last_link HtmlSection_new_def
      split: if_splits sum.splits)

lemma walk_last_link:
  "section_link (last s) = [] \<Longrightarrow> GumboTreeToHtmlSections node s = Inr s' \<Longrightarrow>
     section_link (last s') = []"
  "section_link (last s) = [] \<Longrightarrow> children_loop children s = Inr s' \<Longrightarrow>
     section_link (last s') = []"
proof (induction node s and children s arbitrary: s' and s'
    rule: GumboTreeToHtmlSections_children_loop.induct)
  case (1 tag attributes children s)
  from "1.prems"(2) obtain s1 s2 where
    p: "TreePrefix tag s = Inr s1" and c: "children_loop children s1 = Inr s2"
    and q: "TreePostfix tag attributes (length s1 - 1) s2 = Inr s'"
    by (auto split: sum.splits)
  from TreePrefix_last_link [OF p "1.prems"(1)] have "section_link (last s1) = []" .
  from "1.IH" [OF p this c] have "section_link (last s2) = []" .
  from TreePostfix_last_link [OF q this] show ?case .
next
  case (2 t s)
  then show ?case
    by (auto simp: append_text_def set_back_text_last_link split: if_splits sum.splits)
next
  case (3 s)
  then show ?case by simp
next
  case (4 s)
  then show ?case by simp
next
  case (5 child children s)
  from "5.prems"(2) obtain s1 where
    a: "GumboTreeToHtmlSections child s = Inr s1" and b: "children_loop children s1 = Inr s'"
    by (auto split: sum.splits)
  from "5.IH"(1) [OF "5.prems"(1) a] have "section_link (last s1) = []" .
  from "5.IH"(2) [OF a this b] show ?case .
qed

lemma TreePostfix_A_no_href:
  "gumbo_get_attribute attributes ''href'' = None \<Longrightarrow>
   TreePostfix GUMBO_TAG_A attributes k s = Inr (s @ [HtmlSection_new])"
  by (simp add: record_link_def)

text \<open>
  C8 (as stated). The claim: for every anchor element with no \<^verbatim>\<open>href\<close> attribute,
  processing completes with no error, the link of the section recorded for that anchor
  remains empty, and a new empty section is started after the anchor. An anchor that
  opens on a section with empty text shares that section with an anchor nested in it
  (the prefix processing starts a new section only when the last one has text), and the
  nested anchor's postfix processing records its own link there. For an anchor with no
  \<^verbatim>\<open>href\<close> that wraps an anchor with \<^verbatim>\<open>href="u"\<close> around the text
  \<^verbatim>\<open>y\<close>, walked from the seed section, the section recorded for the outer anchor
  (index 0) ends with the link \<^verbatim>\<open>u\<close>.
\<close>

theorem anchor_without_href_nested_link:
  "gumbo_get_attribute [(''name'', ''top'')] ''href'' = None \<and>
   TreePrefix GUMBO_TAG_A [HtmlSection_new] = Inr [HtmlSection_new] \<and>
   GumboTreeToHtmlSections
     (GUMBO_NODE_ELEMENT GUMBO_TAG_A [(''name'', ''top'')]
        [GUMBO_NODE_ELEMENT GUMBO_TAG_A [(''href'', ''u'')] [GUMBO_NODE_TEXT ''y'']])
     [HtmlSection_new] =
     Inr [\<lparr>section_text = ''y'', section_link = ''u''\<rparr>, HtmlSection_new, HtmlSection_new] \<and>
   section_link
     ([\<lparr>section_text = ''y'', section_link = ''u''\<rparr>, HtmlSection_new, HtmlSection_new] !
        (length [HtmlSection_new] - 1)) \<noteq> []"
  by (simp add: eval_simps)

text \<open>
  C8 (amended). For every anchor element with no \<^verbatim>\<open>href\<close> attribute, the postfix
  processing completes with no error, changes no section and appends a new empty section.
  So, once the prefix processing and the children have completed, the walk of the anchor
  completes with the sequence the children left and one new empty section after it, and
  the link of the section recorded for the anchor (at \<^verbatim>\<open>node_section\<close>) is the one the
  children left; it is empty when the last section had no link at the anchor's start and
  no anchor nested in this one has an \<^verbatim>\<open>href\<close>.
\<close>

theorem anchor_without_href:
  "gumbo_get_attribute attributes ''href'' = None \<longrightarrow>
     TreePostfix GUMBO_TAG_A attributes node_section s = Inr (s @ [HtmlSection_new]) \<and>
     (\<forall>s1 s2. TreePrefix GUMBO_TAG_A s = Inr s1 \<and> children_loop children s1 = Inr s2 \<longrightarrow>
        GumboTreeToHtmlSections (GUMBO_NODE_ELEMENT GUMBO_TAG_A attributes children) s =
          Inr (s2 @ [HtmlSection_new]) \<and>
        section_link ((s2 @ [HtmlSection_new]) ! (length s1 - 1)) =
          section_link (s2 ! (length s1 - 1)) \<and>
        (section_link (last s) = [] \<and> sum_list (map hrefs children) = 0 \<longrightarrow>
           section_link ((s2 @ [HtmlSection_new]) ! (length s1 - 1)) = []))"
proof (intro impI conjI allI)
  assume h: "gumbo_get_attribute attributes ''href'' = None"
  show "TreePostfix GUMBO_TAG_A attributes node_section s = Inr (s @ [HtmlSection_new])"
    by (rule TreePostfix_A_no_href [OF h])
  fix s1 s2
  assume pc: "TreePrefix GUMBO_TAG_A s = Inr s1 \<and> children_loop children s1 = Inr s2"
  then have p: "TreePrefix GUMBO_TAG_A s = Inr s1" and c: "children_loop children s1 = Inr s2"
    by simp_all
  from p have s: "s \<noteq> []" and s1: "s1 \<noteq> []" by (auto split: if_splits)
  from walk_length(2) [OF c] s1 have k: "length s1 - 1 < length s2" by (cases s1) auto
  show "GumboTreeToHtmlSections (GUMBO_NODE_ELEMENT GUMBO_TAG_A attributes children) s =
      Inr (s2 @ [HtmlSection_new])"
    using p c h by (simp add: record_link_def del: TreePrefix.simps)
  show same: "section_link ((s2 @ [HtmlSection_new]) ! (length s1 - 1)) =
      section_link (s2 ! (length s1 - 1))"
    using k by (simp add: nth_append)
  assume e: "section_link (last s) = [] \<and> sum_list (map hrefs children) = 0"
  then have "links_kept s1 s2"
    using walk_links_kept(2) [OF _ c] by simp
  then have "section_link (s2 ! (length s1 - 1)) = section_link (s1 ! (length s1 - 1))"
    using s1 by (intro links_kept_nth) simp_all
  also have "s1 ! (length s1 - 1) = last s1" using s1 by (simp add: last_conv_nth)
  also have "section_link (last s1) = []"
    using p e s by (auto simp: HtmlSection_new_def split: if_splits)
  finally show "section_link ((s2 @ [HtmlSection_new]) ! (length s1 - 1)) = []"
    using same by simp
qed

theorem anchor_without_href_witness:
  "gumbo_get_attribute [(''name'', ''top'')] ''href'' = None \<and>
   GumboTreeToHtmlSections
     (GUMBO_NODE_ELEMENT GUMBO_TAG_A [(''name'', ''top'')]
        [GUMBO_NODE_TEXT ''y'', GUMBO_NODE_ELEMENT GUMBO_TAG_A [] []])
     [\<lparr>section_text = ''x'', section_link = []\<rparr>] =
     Inr ([\<lparr>section_text = ''x'', section_link = []\<rparr>, \<lparr>section_text = ''y'', section_link = []\<rparr>,
           HtmlSection_new, HtmlSection_new]
          @ [HtmlSection_new]) \<and>
   section_link
     (([\<lparr>section_text = ''x'', section_link = []\<rparr>, \<lparr>section_text = ''y'', section_link = []\<rparr>,
        HtmlSection_new, HtmlSection_new]
       @ [HtmlSection_new]) ! (length [\<lparr>section_text = ''x'', section_link = []\<rparr>, HtmlSection_new] - 1))
     = []"
proof -
  let ?x = "\<lparr>section_text = ''x'', section_link = []\<rparr>"
  let ?y = "\<lparr>section_text = ''y'', section_link = []\<rparr>"
  let ?cs = "[GUMBO_NODE_TEXT ''y'', GUMBO_NODE_ELEMENT GUMBO_TAG_A [] []]"
  have h: "gumbo_get_attribute [(''name'', ''top'')] ''href'' = None" by simp
  have p: "TreePrefix GUMBO_TAG_A [?x] = Inr [?x, HtmlSection_new]" by simp
  have c: "children_loop ?cs [?x, HtmlSection_new] = Inr [?x, ?y, HtmlSection_new, HtmlSection_new]"
    by (simp add: eval_simps)
  have e: "section_link (last [?x]) = [] \<and> sum_list (map hrefs ?cs) = 0"
    by simp
  from h p c e anchor_without_href [of "[(''name'', ''top'')]" 0 "[?x]" ?cs]
  show ?thesis by blast
qed

end
